theory Spec2Isabelle
  imports Main "HOL-Library.Multiset" "HOL-Library.Char_ord" "HOL-Library.List_Lexorder"
begin

section \<open>Rows and the in-memory table (src/lib/backstore/memory_table.js)\<close>

text \<open>
  A row (\<^verbatim>\<open>lf.Row\<close>) is known to the table only through \<^verbatim>\<open>row.id()\<close>; the
  payload is opaque here, so it is a type parameter.
\<close>

record 'p Row =
  id_row :: nat
  payload :: 'p

subsection \<open>The container \<^verbatim>\<open>goog.structs.Map\<close>\<close>

text \<open>
  \<^verbatim>\<open>goog.structs.Map\<close> belongs to the Closure Library, not to this repository. The table
  uses six of its methods. It is modelled as an association list with one entry per key:
  \<^verbatim>\<open>set\<close> overwrites the value of a key that is present and adds a key that is not,
  \<^verbatim>\<open>get(key, null)\<close> yields the value or the default (\<open>None\<close> stands for
  \<^verbatim>\<open>null\<close>), \<^verbatim>\<open>remove\<close> drops the key, \<^verbatim>\<open>getValues\<close> lists the values and
  \<^verbatim>\<open>getCount\<close> counts the entries. The order in which \<^verbatim>\<open>getValues\<close> lists them is
  not that of the library in every case (the library can list a key that was removed and
  set again at its old place, the list has it last); no statement below says what that
  order is.
\<close>

type_synonym ('k, 'v) Map = "('k \<times> 'v) list"

definition Map_get :: "('k, 'v) Map \<Rightarrow> 'k \<Rightarrow> 'v option" where
  "Map_get m k = map_of m k"

fun Map_set :: "'k \<Rightarrow> 'v \<Rightarrow> ('k, 'v) Map \<Rightarrow> ('k, 'v) Map" where
  "Map_set k v [] = [(k, v)]"
| "Map_set k v (p # ps) = (if fst p = k then (k, v) # ps else p # Map_set k v ps)"

definition Map_remove :: "'k \<Rightarrow> ('k, 'v) Map \<Rightarrow> ('k, 'v) Map" where
  "Map_remove k m = filter (\<lambda>p. fst p \<noteq> k) m"

definition Map_clear :: "('k, 'v) Map \<Rightarrow> ('k, 'v) Map" where
  "Map_clear m = []"

definition Map_getCount :: "('k, 'v) Map \<Rightarrow> nat" where
  "Map_getCount m = length m"

definition Map_getValues :: "('k, 'v) Map \<Rightarrow> 'v list" where
  "Map_getValues m = map snd m"

subsection \<open>\<^verbatim>\<open>lf.backstore.MemoryTable\<close>\<close>

text \<open>
  The object has the single field \<^verbatim>\<open>data_\<close> (here \<open>data_tbl\<close>). Every method
  returns an already resolved promise; the model returns the resolved value (for
  \<^verbatim>\<open>put\<close> and \<^verbatim>\<open>remove\<close>, the table after the call). \<^verbatim>\<open>forEach\<close> with
  \<^verbatim>\<open>push\<close> is a left fold that appends. Row identities are non-negative integers.
\<close>

record 'p MemoryTable =
  data_tbl :: "(nat, 'p Row) Map"

definition new_MemoryTable :: "'p MemoryTable" where
  "new_MemoryTable = \<lparr>data_tbl = []\<rparr>"

text \<open>\<^verbatim>\<open>getAll_\<close> of the source.\<close>

definition getAll :: "'p MemoryTable \<Rightarrow> 'p Row list" where
  "getAll t = Map_getValues (data_tbl t)"

definition get :: "'p MemoryTable \<Rightarrow> nat list \<Rightarrow> 'p Row list" where
  "get t ids =
     (if length ids = 0 then getAll t
      else foldl (\<lambda>results i.
                    case Map_get (data_tbl t) i of
                      None \<Rightarrow> results
                    | Some row \<Rightarrow> results @ [row]) [] ids)"

definition put :: "'p MemoryTable \<Rightarrow> 'p Row list \<Rightarrow> 'p MemoryTable" where
  "put t rows =
     foldl (\<lambda>t' row. t'\<lparr>data_tbl := Map_set (id_row row) row (data_tbl t')\<rparr>) t rows"

definition remove :: "'p MemoryTable \<Rightarrow> nat list \<Rightarrow> 'p MemoryTable" where
  "remove t ids =
     (if length ids = 0 \<or> length ids = Map_getCount (data_tbl t)
      then t\<lparr>data_tbl := Map_clear (data_tbl t)\<rparr>
      else foldl (\<lambda>t' i. t'\<lparr>data_tbl := Map_remove i (data_tbl t')\<rparr>) t ids)"

subsection \<open>What a table holds\<close>

text \<open>
  The rows stored in a table are the values its map yields for some key. The data
  invariant of the spec: one entry per key, and every row sits under its own identity.
  The empty table satisfies it, and \<open>put\<close> and \<open>remove\<close> keep it (shown below).
\<close>

definition stored :: "'p MemoryTable \<Rightarrow> 'p Row set" where
  "stored t = ran (Map_get (data_tbl t))"

definition table_inv :: "'p MemoryTable \<Rightarrow> bool" where
  "table_inv t \<longleftrightarrow>
     distinct (map fst (data_tbl t)) \<and> list_all (\<lambda>p. id_row (snd p) = fst p) (data_tbl t)"

subsection \<open>Sample data\<close>

definition sample_table :: "string MemoryTable" where
  "sample_table =
     \<lparr>data_tbl = [(1, \<lparr>id_row = 1, payload = ''a''\<rparr>),
                  (2, \<lparr>id_row = 2, payload = ''b''\<rparr>),
                  (5, \<lparr>id_row = 5, payload = ''c''\<rparr>)]\<rparr>"

section \<open>The query engine facade (src/lib/proc/default_query_engine.js)\<close>

text \<open>
  \<^verbatim>\<open>lf.proc.LogicalPlanFactory\<close> and \<^verbatim>\<open>lf.proc.PhysicalPlanFactory\<close> are required by
  the file but are not among the sources. The engine holds one object of each and calls
  nothing but its \<^verbatim>\<open>create\<close> method, so each factory is a field holding its
  \<^verbatim>\<open>create\<close>: a function of the argument and of the storage \<open>'s\<close> that the factory
  can reach (the physical one is built from \<^verbatim>\<open>lf.Global\<close>). It returns the storage it
  leaves behind and either the plan (\<open>Inr\<close>) or the exception it throws (\<open>Inl\<close>).

  \<^verbatim>\<open>getPlan\<close> has no handler: an exception of the logical factory leaves
  \<^verbatim>\<open>getPlan\<close> at once and the physical factory is not called. The methods thread the
  storage in call order and touch it nowhere themselves.
\<close>

record ('q, 'l, 'p, 's, 'e) DefaultQueryEngine =
  logicalPlanFactory :: "'q \<Rightarrow> 's \<Rightarrow> ('e + 'l) \<times> 's"
  physicalPlanFactory :: "'l \<Rightarrow> 's \<Rightarrow> ('e + 'p) \<times> 's"

definition convertToLogicalPlan ::
  "('q, 'l, 'p, 's, 'e) DefaultQueryEngine \<Rightarrow> 'q \<Rightarrow> 's \<Rightarrow> ('e + 'l) \<times> 's" where
  "convertToLogicalPlan this query = logicalPlanFactory this query"

definition convertToPhysicalPlan ::
  "('q, 'l, 'p, 's, 'e) DefaultQueryEngine \<Rightarrow> 'l \<Rightarrow> 's \<Rightarrow> ('e + 'p) \<times> 's" where
  "convertToPhysicalPlan this logicalQueryPlan = physicalPlanFactory this logicalQueryPlan"

definition getPlan ::
  "('q, 'l, 'p, 's, 'e) DefaultQueryEngine \<Rightarrow> 'q \<Rightarrow> 's \<Rightarrow> ('e + 'p) \<times> 's" where
  "getPlan this query s =
     (case convertToLogicalPlan this query s of
        (Inl e, s') \<Rightarrow> (Inl e, s')
      | (Inr logicalQueryPlan, s') \<Rightarrow> convertToPhysicalPlan this logicalQueryPlan s')"

section \<open>Planner and operators\<close>

text \<open>
  The factories behind the engine, the plan nodes and the operators are code of the
  repository that is not among the sources; the end-to-end tests
  (src/tests/proc/end_to_end_select_test.js) only call them. This section models them
  from the spec, for select queries. Left out are floating-point values and the
  aggregators that produce them (AVG, STDDEV), DISTINCT, the optional rewrite rules
  (projection push-down, constant folding) and the choice of a join strategy.
\<close>

subsection \<open>Values, payloads and composite rows\<close>

text \<open>
  Modelled from the spec: the sum-typed value of a row payload, with the explicit absent
  marker (the row classes of the schema are missing).
\<close>

datatype val = Absent | BoolV bool | IntV int | TextV string

text \<open>
  Modelled from the spec: a payload maps column names to values; a composite row carries
  one payload per table in scope, keyed by table name; a relation is a finite sequence of
  composite rows. A column is named by its table and its own name.
\<close>

type_synonym payload_map = "string \<rightharpoonup> val"

type_synonym composite = "string \<rightharpoonup> payload_map"

type_synonym Relation = "composite list"

type_synonym column = "string \<times> string"

text \<open>
  Modelled from the spec: the value a composite row has in a column; a table or a column
  that the row does not carry reads as the absent marker.
\<close>

definition cell :: "column \<Rightarrow> composite \<Rightarrow> val" where
  "cell c r =
     (case r (fst c) of
        None \<Rightarrow> Absent
      | Some p \<Rightarrow> (case p (snd c) of None \<Rightarrow> Absent | Some v \<Rightarrow> v))"

text \<open>
  Modelled from the spec: the order of values used by comparisons and by order-by. The
  absent marker is below every value; booleans, integers and texts are ordered among
  themselves. The spec is silent on values of two different types, which a typed column
  never holds; they are ordered by type so that the order is total.
\<close>

fun val_rank :: "val \<Rightarrow> nat" where
  "val_rank Absent = 0"
| "val_rank (BoolV b) = 1"
| "val_rank (IntV i) = 2"
| "val_rank (TextV s) = 3"

fun val_le :: "val \<Rightarrow> val \<Rightarrow> bool" where
  "val_le (BoolV x) (BoolV y) = (x \<le> y)"
| "val_le (IntV x) (IntV y) = (x \<le> y)"
| "val_le (TextV x) (TextV y) = (x \<le> y)"
| "val_le a b = (val_rank a \<le> val_rank b)"

definition val_less :: "val \<Rightarrow> val \<Rightarrow> bool" where
  "val_less a b \<longleftrightarrow> val_le a b \<and> a \<noteq> b"

subsection \<open>Predicates\<close>

text \<open>
  Modelled from the spec: the predicate tree. A leaf compares a column with a literal or,
  for a join predicate, with another column; inner nodes are and, or, not.
\<close>

datatype pred =
    Eq column val
  | Lt column val
  | Gt column val
  | EqCol column column
  | And pred pred
  | Or pred pred
  | Not pred

text \<open>Modelled from the spec: the pure \<^verbatim>\<open>evaluate(row)\<close> of a predicate node.\<close>

fun evaluate :: "pred \<Rightarrow> composite \<Rightarrow> bool" where
  "evaluate (Eq c v) r = (cell c r = v)"
| "evaluate (Lt c v) r = val_less (cell c r) v"
| "evaluate (Gt c v) r = val_less v (cell c r)"
| "evaluate (EqCol c d) r = (cell c r = cell d r)"
| "evaluate (And p q) r = (evaluate p r \<and> evaluate q r)"
| "evaluate (Or p q) r = (evaluate p r \<or> evaluate q r)"
| "evaluate (Not p) r = (\<not> evaluate p r)"

subsection \<open>Aggregators\<close>

text \<open>
  Modelled from the spec: an aggregator is a reduction of the values of one column; it has
  the name under which its scalar appears in a result row.
\<close>

record aggregator =
  agg_name :: string
  agg_col :: column
  agg_fn :: "val list \<Rightarrow> val"

text \<open>
  Modelled from the spec: MIN, MAX, SUM and COUNT. Over an empty input MIN and MAX are
  absent and SUM and COUNT are 0; COUNT of a column skips absent values.
\<close>

fun agg_min :: "val list \<Rightarrow> val" where
  "agg_min [] = Absent"
| "agg_min (v # vs) =
     (let m = agg_min vs
      in if v = Absent then m else if m = Absent then v else if val_le v m then v else m)"

fun agg_max :: "val list \<Rightarrow> val" where
  "agg_max [] = Absent"
| "agg_max (v # vs) =
     (let m = agg_max vs
      in if v = Absent then m else if m = Absent then v else if val_le m v then v else m)"

fun agg_sum :: "val list \<Rightarrow> val" where
  "agg_sum vs = IntV (sum_list (map (\<lambda>v. case v of IntV i \<Rightarrow> i | _ \<Rightarrow> 0) vs))"

fun agg_count :: "val list \<Rightarrow> val" where
  "agg_count vs = IntV (int (length (filter (\<lambda>v. v \<noteq> Absent) vs)))"

definition fn_min :: "column \<Rightarrow> aggregator" where
  "fn_min c = \<lparr>agg_name = ''MIN('' @ snd c @ '')'', agg_col = c, agg_fn = agg_min\<rparr>"

definition fn_max :: "column \<Rightarrow> aggregator" where
  "fn_max c = \<lparr>agg_name = ''MAX('' @ snd c @ '')'', agg_col = c, agg_fn = agg_max\<rparr>"

definition fn_sum :: "column \<Rightarrow> aggregator" where
  "fn_sum c = \<lparr>agg_name = ''SUM('' @ snd c @ '')'', agg_col = c, agg_fn = agg_sum\<rparr>"

definition fn_count :: "column \<Rightarrow> aggregator" where
  "fn_count c = \<lparr>agg_name = ''COUNT('' @ snd c @ '')'', agg_col = c, agg_fn = agg_count\<rparr>"

text \<open>
  The aggregators of the spec compute their scalar from the values of the column, whatever
  the order of the rows; the record admits any function of the list of values, so this
  is a condition.
\<close>

definition order_insensitive :: "aggregator \<Rightarrow> bool" where
  "order_insensitive a \<longleftrightarrow> (\<forall>xs ys. mset xs = mset ys \<longrightarrow> agg_fn a xs = agg_fn a ys)"

subsection \<open>Query descriptions and plans\<close>

text \<open>Modelled from the spec: the direction of an order-by spec (\<^verbatim>\<open>lf.Order\<close>).\<close>

datatype Order = ASC | DESC

text \<open>
  Modelled from the spec: the Select shape of a query description. An empty list of
  projected columns without aggregators is \<^verbatim>\<open>select *\<close>.
\<close>

record SelectContext =
  from_tables :: "string list"
  inner_joins :: "(string \<times> pred) list"
  where_pred :: "pred option"
  columns :: "column list"
  aggregators :: "aggregator list"
  order_by :: "(column \<times> Order) list"
  skip_rows :: "nat option"
  limit_rows :: "nat option"

text \<open>Modelled from the spec: the error kinds.\<close>

datatype Error = ValidationError | PlanError | ExecError | StorageError | Cancelled

text \<open>
  Modelled from the spec: the logical plan nodes that a select uses. Project carries the
  aggregators of the query next to its columns.
\<close>

datatype LogicalPlan =
    TableAccess string
  | Select pred LogicalPlan
  | Project "column list" "aggregator list" LogicalPlan
  | CrossProduct LogicalPlan LogicalPlan
  | Join pred LogicalPlan LogicalPlan
  | OrderBy "(column \<times> Order) list" LogicalPlan
  | Skip nat LogicalPlan
  | Limit nat LogicalPlan

text \<open>
  Modelled from the spec: the initial tree of a select whose from list is \<open>t # ts\<close>. One
  TableAccess per table, combined left-deep by CrossProduct; an explicit inner join is a
  Join node; the where predicate is a single Select above; then Project, OrderBy, Skip,
  Limit in that order, Limit outermost.
\<close>

definition initial_tree :: "string \<Rightarrow> string list \<Rightarrow> SelectContext \<Rightarrow> LogicalPlan" where
  "initial_tree t ts query =
     (let crossed = foldl (\<lambda>l u. CrossProduct l (TableAccess u)) (TableAccess t) ts;
          joined = foldl (\<lambda>l j. Join (snd j) l (TableAccess (fst j))) crossed
                     (inner_joins query);
          selected = (case where_pred query of None \<Rightarrow> joined | Some p \<Rightarrow> Select p joined);
          projected = Project (columns query) (aggregators query) selected;
          ordered = (if order_by query = [] then projected
                     else OrderBy (order_by query) projected);
          skipped = (case skip_rows query of None \<Rightarrow> ordered | Some n \<Rightarrow> Skip n ordered)
      in case limit_rows query of None \<Rightarrow> skipped | Some n \<Rightarrow> Limit n skipped)"



text \<open>
  Modelled from the spec: the tables that the columns of a predicate belong to, and the
  tables whose payloads a row of a plan node can carry (those of its TableAccess leaves
  and those that an aggregator annotates).
\<close>

fun pred_tables :: "pred \<Rightarrow> string list" where
  "pred_tables (Eq c v) = [fst c]"
| "pred_tables (Lt c v) = [fst c]"
| "pred_tables (Gt c v) = [fst c]"
| "pred_tables (EqCol c d) = [fst c, fst d]"
| "pred_tables (And p q) = pred_tables p @ pred_tables q"
| "pred_tables (Or p q) = pred_tables p @ pred_tables q"
| "pred_tables (Not p) = pred_tables p"

fun plan_tables :: "LogicalPlan \<Rightarrow> string list" where
  "plan_tables (TableAccess t) = [t]"
| "plan_tables (Select p c) = plan_tables c"
| "plan_tables (Project cols aggs c) = plan_tables c @ map (\<lambda>a. fst (agg_col a)) aggs"
| "plan_tables (CrossProduct l r) = plan_tables l @ plan_tables r"
| "plan_tables (Join p l r) = plan_tables l @ plan_tables r"
| "plan_tables (OrderBy specs c) = plan_tables c"
| "plan_tables (Skip n c) = plan_tables c"
| "plan_tables (Limit n c) = plan_tables c"

text \<open>
  Modelled from the spec: all columns referenced by the predicate come from a single
  child subtree, the first of the two given.
\<close>

definition from_single_child :: "pred \<Rightarrow> LogicalPlan \<Rightarrow> LogicalPlan \<Rightarrow> bool" where
  "from_single_child p child other =
     list_all (\<lambda>t. t \<in> set (plan_tables child) \<and> t \<notin> set (plan_tables other)) (pred_tables p)"

text \<open>
  Modelled from the spec: rewrite rule 1, predicate push-down. A Select on a conjunction
  is split into one Select per conjunct, and each is pushed below a CrossProduct or a
  Join when all its columns come from a single child subtree; on its way down it passes
  the Selects already placed.
\<close>

fun conjuncts :: "pred \<Rightarrow> pred list" where
  "conjuncts (And p q) = conjuncts p @ conjuncts q"
| "conjuncts p = [p]"

fun push_down :: "pred \<Rightarrow> LogicalPlan \<Rightarrow> LogicalPlan" where
  "push_down p (CrossProduct l r) =
     (if from_single_child p l r then CrossProduct (push_down p l) r
      else if from_single_child p r l then CrossProduct l (push_down p r)
      else Select p (CrossProduct l r))"
| "push_down p (Join q l r) =
     (if from_single_child p l r then Join q (push_down p l) r
      else if from_single_child p r l then Join q l (push_down p r)
      else Select p (Join q l r))"
| "push_down p (Select q c) = Select q (push_down p c)"
| "push_down p c = Select p c"

fun push_selects :: "LogicalPlan \<Rightarrow> LogicalPlan" where
  "push_selects (TableAccess t) = TableAccess t"
| "push_selects (Select p c) = foldr push_down (conjuncts p) (push_selects c)"
| "push_selects (Project cols aggs c) = Project cols aggs (push_selects c)"
| "push_selects (CrossProduct l r) = CrossProduct (push_selects l) (push_selects r)"
| "push_selects (Join p l r) = Join p (push_selects l) (push_selects r)"
| "push_selects (OrderBy specs c) = OrderBy specs (push_selects c)"
| "push_selects (Skip n c) = Skip n (push_selects c)"
| "push_selects (Limit n c) = Limit n (push_selects c)"

text \<open>
  Modelled from the spec: rewrite rule 2, join inference. A Select on an equality of two
  columns immediately above a CrossProduct, the columns coming from different sides,
  becomes a Join and the Select is removed.
\<close>

definition from_different_sides :: "column \<Rightarrow> column \<Rightarrow> LogicalPlan \<Rightarrow> LogicalPlan \<Rightarrow> bool" where
  "from_different_sides c d l r \<longleftrightarrow>
     fst c \<in> set (plan_tables l) \<and> fst d \<in> set (plan_tables r) \<or>
     fst c \<in> set (plan_tables r) \<and> fst d \<in> set (plan_tables l)"

fun infer_joins :: "LogicalPlan \<Rightarrow> LogicalPlan" where
  "infer_joins (Select (EqCol c d) (CrossProduct l r)) =
     (if from_different_sides c d l r
      then Join (EqCol c d) (infer_joins l) (infer_joins r)
      else Select (EqCol c d) (CrossProduct (infer_joins l) (infer_joins r)))"
| "infer_joins (Select p c) = Select p (infer_joins c)"
| "infer_joins (TableAccess t) = TableAccess t"
| "infer_joins (Project cols aggs c) = Project cols aggs (infer_joins c)"
| "infer_joins (CrossProduct l r) = CrossProduct (infer_joins l) (infer_joins r)"
| "infer_joins (Join p l r) = Join p (infer_joins l) (infer_joins r)"
| "infer_joins (OrderBy specs c) = OrderBy specs (infer_joins c)"
| "infer_joins (Skip n c) = Skip n (infer_joins c)"
| "infer_joins (Limit n c) = Limit n (infer_joins c)"

text \<open>
  Modelled from the spec: \<^verbatim>\<open>LogicalPlanFactory.create\<close> for a select: the initial tree,
  then rule 1 over the whole tree, then rule 2 over the whole tree. A select names at
  least one table; without one there is no plan.
\<close>

definition LogicalPlanFactory_create :: "SelectContext \<Rightarrow> Error + LogicalPlan" where
  "LogicalPlanFactory_create query =
     (case from_tables query of
        [] \<Rightarrow> Inl PlanError
      | t # ts \<Rightarrow> Inr (infer_joins (push_selects (initial_tree t ts query))))"

text \<open>
  Modelled from the spec: the physical plan nodes, one per logical node, and the single
  bounded-take node for a Limit next to a Skip.
\<close>

datatype PhysicalPlan =
    TableAccessStep string
  | SelectStep pred PhysicalPlan
  | ProjectStep "column list" "aggregator list" PhysicalPlan
  | CrossProductStep PhysicalPlan PhysicalPlan
  | JoinStep pred PhysicalPlan PhysicalPlan
  | OrderByStep "(column \<times> Order) list" PhysicalPlan
  | SkipStep nat PhysicalPlan
  | LimitStep nat PhysicalPlan
  | SkipLimitStep nat nat PhysicalPlan

text \<open>
  Modelled from the spec: \<^verbatim>\<open>PhysicalPlanFactory.create\<close>. It walks the logical tree
  and keeps its structure; a Limit directly above a Skip becomes one bounded take.
\<close>

fun to_physical :: "LogicalPlan \<Rightarrow> PhysicalPlan" where
  "to_physical (TableAccess t) = TableAccessStep t"
| "to_physical (Select p c) = SelectStep p (to_physical c)"
| "to_physical (Project cols aggs c) = ProjectStep cols aggs (to_physical c)"
| "to_physical (CrossProduct l r) = CrossProductStep (to_physical l) (to_physical r)"
| "to_physical (Join p l r) = JoinStep p (to_physical l) (to_physical r)"
| "to_physical (OrderBy specs c) = OrderByStep specs (to_physical c)"
| "to_physical (Skip n c) = SkipStep n (to_physical c)"
| "to_physical (Limit n (Skip m c)) = SkipLimitStep m n (to_physical c)"
| "to_physical (Limit n c) = LimitStep n (to_physical c)"

definition PhysicalPlanFactory_create :: "LogicalPlan \<Rightarrow> Error + PhysicalPlan" where
  "PhysicalPlanFactory_create l = Inr (to_physical l)"

subsection \<open>Operators\<close>

text \<open>
  Modelled from the spec: Project keeps, in each table's payload, the projected columns
  of that table.
\<close>

definition restrict_cols :: "column list \<Rightarrow> composite \<Rightarrow> composite" where
  "restrict_cols cols r =
     (\<lambda>t. case r t of
             None \<Rightarrow> None
           | Some p \<Rightarrow> Some (\<lambda>c. if (t, c) \<in> set cols then p c else None))"

text \<open>
  Modelled from the spec: the scalar of an aggregator is computed over the entire input,
  and a row is annotated with it under the aggregator's name, in the payload of the
  table the aggregated column belongs to.
\<close>

definition scalar :: "aggregator \<Rightarrow> Relation \<Rightarrow> val" where
  "scalar a rel = agg_fn a (map (cell (agg_col a)) rel)"

definition annotate :: "aggregator \<Rightarrow> val \<Rightarrow> composite \<Rightarrow> composite" where
  "annotate a v r =
     (let t = fst (agg_col a);
          p = (case r t of None \<Rightarrow> Map.empty | Some p \<Rightarrow> p)
      in r(t \<mapsto> p(agg_name a \<mapsto> v)))"

text \<open>
  Modelled from the spec: the Project operator. Without aggregators it restricts each
  input row to the projected columns (all columns for \<^verbatim>\<open>select *\<close>). Aggregators alone
  produce a single row with the scalars. Aggregators together with columns annotate
  each restricted input row with the scalars.
\<close>

definition project :: "column list \<Rightarrow> aggregator list \<Rightarrow> Relation \<Rightarrow> Relation" where
  "project cols aggs rel =
     (if aggs = [] then (if cols = [] then rel else map (restrict_cols cols) rel)
      else let annotated = (\<lambda>r. foldl (\<lambda>r' a. annotate a (scalar a rel) r') r aggs)
           in if cols = [] then [annotated Map.empty]
              else map (\<lambda>r. annotated (restrict_cols cols r)) rel)"

text \<open>
  Modelled from the spec: the single lexicographic comparator of OrderBy. It reads
  "row a may stand before row b": the first spec on which the rows differ decides, by
  the order of values for ASC and by its converse for DESC.
\<close>

fun le_specs :: "(column \<times> Order) list \<Rightarrow> composite \<Rightarrow> composite \<Rightarrow> bool" where
  "le_specs [] a b = True"
| "le_specs ((c, ord) # specs) a b =
     (if cell c a = cell c b then le_specs specs a b
      else (case ord of ASC \<Rightarrow> val_le (cell c a) (cell c b)
                      | DESC \<Rightarrow> val_le (cell c b) (cell c a)))"

text \<open>
  Modelled from the spec: the full, stable sort of OrderBy, as an insertion sort by the
  comparator; a row is put before the first row it may stand before.
\<close>

fun insort_by :: "('a \<Rightarrow> 'a \<Rightarrow> bool) \<Rightarrow> 'a \<Rightarrow> 'a list \<Rightarrow> 'a list" where
  "insort_by le x [] = [x]"
| "insort_by le x (y # ys) = (if le x y then x # y # ys else y # insort_by le x ys)"

definition sort_by :: "('a \<Rightarrow> 'a \<Rightarrow> bool) \<Rightarrow> 'a list \<Rightarrow> 'a list" where
  "sort_by le xs = foldr (insort_by le) xs []"

text \<open>
  Modelled from the spec: the storage the operators run against, one memory table per
  table name, and \<^verbatim>\<open>execute\<close> of each physical node. TableAccess reads every row of
  the table with \<open>get\<close> on the empty list and wraps each payload under the table's name;
  CrossProduct merges the per-table maps of every pair, left rows outermost.
\<close>

type_synonym Storage = "string \<Rightarrow> payload_map MemoryTable"

fun exec :: "Storage \<Rightarrow> PhysicalPlan \<Rightarrow> Relation" where
  "exec db (TableAccessStep t) = map (\<lambda>row. [t \<mapsto> payload row]) (get (db t) [])"
| "exec db (SelectStep p c) = filter (evaluate p) (exec db c)"
| "exec db (ProjectStep cols aggs c) = project cols aggs (exec db c)"
| "exec db (CrossProductStep l r) =
     concat (map (\<lambda>a. map (\<lambda>b. a ++ b) (exec db r)) (exec db l))"
| "exec db (JoinStep p l r) =
     filter (evaluate p) (concat (map (\<lambda>a. map (\<lambda>b. a ++ b) (exec db r)) (exec db l)))"
| "exec db (OrderByStep specs c) = sort_by (le_specs specs) (exec db c)"
| "exec db (SkipStep n c) = drop n (exec db c)"
| "exec db (LimitStep n c) = take n (exec db c)"
| "exec db (SkipLimitStep m n c) = take n (drop m (exec db c))"

text \<open>
  Modelled from the spec: the shape of a result row. With one table in scope it is the
  flat map of that table's columns; with several it is the composite keyed by table name.
\<close>

datatype result_row = Flat payload_map | Nested composite

fun scope :: "PhysicalPlan \<Rightarrow> string list" where
  "scope (TableAccessStep t) = [t]"
| "scope (SelectStep p c) = scope c"
| "scope (ProjectStep cols aggs c) = scope c"
| "scope (CrossProductStep l r) = scope l @ scope r"
| "scope (JoinStep p l r) = scope l @ scope r"
| "scope (OrderByStep specs c) = scope c"
| "scope (SkipStep n c) = scope c"
| "scope (LimitStep n c) = scope c"
| "scope (SkipLimitStep m n c) = scope c"

definition shape :: "string list \<Rightarrow> composite \<Rightarrow> result_row" where
  "shape ts r =
     (case ts of
        [t] \<Rightarrow> Flat (case r t of None \<Rightarrow> Map.empty | Some p \<Rightarrow> p)
      | _ \<Rightarrow> Nested r)"

text \<open>
  Modelled from the spec: \<^verbatim>\<open>execute\<close> of a plan, the rows of its root in the result
  shape; a planning error is passed on before any storage call.
\<close>

definition execute :: "Storage \<Rightarrow> Error + PhysicalPlan \<Rightarrow> Error + result_row list" where
  "execute db plan =
     (case plan of
        Inl e \<Rightarrow> Inl e
      | Inr p \<Rightarrow> Inr (map (shape (scope p)) (exec db p)))"

text \<open>
  Modelled from the spec: the engine of the source holding the two modelled factories.
  The spec has the planner pure, with no storage access: each \<^verbatim>\<open>create\<close> computes its
  plan from its argument alone and hands the storage back as it got it.
\<close>

definition engine ::
  "(SelectContext, LogicalPlan, PhysicalPlan, Storage, Error) DefaultQueryEngine" where
  "engine =
     \<lparr>logicalPlanFactory = (\<lambda>q s. (LogicalPlanFactory_create q, s)),
      physicalPlanFactory = (\<lambda>l s. (PhysicalPlanFactory_create l, s))\<rparr>"

text \<open>Modelled from the spec: a select run end to end, plan then execute.\<close>

definition run_select :: "Storage \<Rightarrow> SelectContext \<Rightarrow> Error + result_row list" where
  "run_select db query = execute db (fst (getPlan engine query db))"

subsection \<open>The queries and helpers of the end-to-end tests\<close>

text \<open>
  Modelled from the spec: the query descriptions that the builder calls of the tests
  stand for (the builder is missing): \<^verbatim>\<open>select().from(t).where(p)\<close>,
  \<^verbatim>\<open>select().from(t).orderBy(..)\<close> with one call per spec,
  \<^verbatim>\<open>select(cols, aggregator).from(t)\<close>, and \<^verbatim>\<open>select(cols).from(a, b).where(p)\<close>,
  which joins implicitly. The last one also takes order-by specs.
\<close>

definition select_where :: "string \<Rightarrow> pred \<Rightarrow> SelectContext" where
  "select_where t p =
     \<lparr>from_tables = [t], inner_joins = [], where_pred = Some p, columns = [],
      aggregators = [], order_by = [], skip_rows = None, limit_rows = None\<rparr>"


definition select_with_aggregator :: "string \<Rightarrow> string list \<Rightarrow> aggregator \<Rightarrow> SelectContext" where
  "select_with_aggregator t cols a =
     \<lparr>from_tables = [t], inner_joins = [], where_pred = None, columns = map (Pair t) cols,
      aggregators = [a], order_by = [], skip_rows = None, limit_rows = None\<rparr>"

definition select_from_two ::
  "string \<Rightarrow> string \<Rightarrow> pred \<Rightarrow> column list \<Rightarrow> (column \<times> Order) list \<Rightarrow> SelectContext" where
  "select_from_two a b p cols specs =
     \<lparr>from_tables = [a, b], inner_joins = [], where_pred = Some p, columns = cols,
      aggregators = [], order_by = specs, skip_rows = None, limit_rows = None\<rparr>"

text \<open>
  \<^verbatim>\<open>result[column.getName()]\<close> on a flat result row; a missing property reads as the
  absent marker.
\<close>

definition value_of :: "payload_map \<Rightarrow> string \<Rightarrow> val" where
  "value_of result c = (case result c of None \<Rightarrow> Absent | Some v \<Rightarrow> v)"



subsection \<open>Sample tables\<close>

definition sample_jobs :: "payload_map MemoryTable" where
  "sample_jobs =
     \<lparr>data_tbl =
        [(1, \<lparr>id_row = 1, payload = [''id'' \<mapsto> TextV ''jobId0'', ''title'' \<mapsto> TextV ''Clerk'',
                                      ''minSalary'' \<mapsto> IntV 100, ''maxSalary'' \<mapsto> IntV 500]\<rparr>),
         (2, \<lparr>id_row = 2, payload = [''id'' \<mapsto> TextV ''jobId1'', ''title'' \<mapsto> TextV ''Engineer'',
                                      ''minSalary'' \<mapsto> IntV 200, ''maxSalary'' \<mapsto> IntV 700]\<rparr>),
         (3, \<lparr>id_row = 3, payload = [''id'' \<mapsto> TextV ''jobId2'', ''title'' \<mapsto> TextV ''Manager'',
                                      ''minSalary'' \<mapsto> IntV 150, ''maxSalary'' \<mapsto> IntV 700]\<rparr>)]\<rparr>"

definition sample_employees :: "payload_map MemoryTable" where
  "sample_employees =
     \<lparr>data_tbl =
        [(1, \<lparr>id_row = 1, payload = [''id'' \<mapsto> TextV ''e0'', ''jobId'' \<mapsto> TextV ''jobId1'']\<rparr>),
         (2, \<lparr>id_row = 2, payload = [''id'' \<mapsto> TextV ''e1'', ''jobId'' \<mapsto> TextV ''jobId0'']\<rparr>)]\<rparr>"

definition sample_storage :: Storage where
  "sample_storage name =
     (if name = ''Job'' then sample_jobs
      else if name = ''Employee'' then sample_employees
      else new_MemoryTable)"

section \<open>Properties of the in-memory table\<close>

subsection \<open>The container and the invariant\<close>

lemma map_of_Map_set: "map_of (Map_set k v m) = (map_of m)(k \<mapsto> v)"
  by (induction m) (auto simp: fun_eq_iff)

lemma keys_Map_set:
  "map fst (Map_set k v m) = (if k \<in> set (map fst m) then map fst m else map fst m @ [k])"
  by (induction m) auto

lemma distinct_Map_set: "distinct (map fst m) \<Longrightarrow> distinct (map fst (Map_set k v m))"
  by (simp add: keys_Map_set)

lemma set_Map_set: "set (Map_set k v m) \<subseteq> insert (k, v) (set m)"
  by (induction m) auto

lemma map_of_Map_remove: "map_of (Map_remove k m) = (map_of m)(k := None)"
  unfolding Map_remove_def by (induction m) (auto simp: fun_eq_iff)

lemma foldl_push:
  "foldl (\<lambda>results i. case f i of None \<Rightarrow> results | Some row \<Rightarrow> results @ [row]) acc ids
     = acc @ concat (map (\<lambda>i. case f i of None \<Rightarrow> [] | Some row \<Rightarrow> [row]) ids)"
  by (induction ids arbitrary: acc) (auto split: option.splits)

lemma get_nonempty:
  "ids \<noteq> [] \<Longrightarrow>
   get t ids = concat (map (\<lambda>i. case Map_get (data_tbl t) i of None \<Rightarrow> [] | Some row \<Rightarrow> [row]) ids)"
  by (simp add: get_def foldl_push)

lemma get_empty: "get t [] = map snd (data_tbl t)"
  by (simp add: get_def getAll_def Map_getValues_def)

lemma set_get_nonempty:
  "ids \<noteq> [] \<Longrightarrow> set (get t ids) = {r. \<exists>i \<in> set ids. Map_get (data_tbl t) i = Some r}"
  by (auto simp: get_nonempty split: option.splits)

lemma stored_distinct:
  "distinct (map fst (data_tbl t)) \<Longrightarrow> stored t = snd ` set (data_tbl t)"
  by (simp add: stored_def Map_get_def[abs_def] ran_distinct)

lemma data_put:
  "data_tbl (put t rows) = foldl (\<lambda>m row. Map_set (id_row row) row m) (data_tbl t) rows"
  unfolding put_def by (induction rows arbitrary: t) auto

lemma data_remove_each:
  "data_tbl (foldl (\<lambda>t' i. t'\<lparr>data_tbl := Map_remove i (data_tbl t')\<rparr>) t ids)
     = filter (\<lambda>p. fst p \<notin> set ids) (data_tbl t)"
  by (induction ids arbitrary: t) (auto simp: Map_remove_def intro: filter_cong)

lemma data_remove:
  "data_tbl (remove t ids) =
     (if ids = [] \<or> length ids = length (data_tbl t) then []
      else filter (\<lambda>p. fst p \<notin> set ids) (data_tbl t))"
  by (simp add: remove_def data_remove_each Map_clear_def Map_getCount_def)

lemma table_inv_new: "table_inv new_MemoryTable"
  by (simp add: table_inv_def new_MemoryTable_def)

lemma table_inv_Map_set:
  assumes "distinct (map fst m)" "list_all (\<lambda>p. id_row (snd p) = fst p) m"
  shows "distinct (map fst (Map_set (id_row r) r m)) \<and>
         list_all (\<lambda>p. id_row (snd p) = fst p) (Map_set (id_row r) r m)"
  using assms set_Map_set[of "id_row r" r m]
  by (auto simp: distinct_Map_set list_all_iff)

lemma table_inv_put: "table_inv t \<Longrightarrow> table_inv (put t rows)"
proof (induction rows arbitrary: t)
  case Nil
  then show ?case by (simp add: put_def)
next
  case (Cons r rows)
  have "table_inv (t\<lparr>data_tbl := Map_set (id_row r) r (data_tbl t)\<rparr>)"
    using Cons.prems table_inv_Map_set[of "data_tbl t" r] by (simp add: table_inv_def)
  from Cons.IH[OF this] show ?case by (simp add: put_def)
qed

lemma table_inv_remove: "table_inv t \<Longrightarrow> table_inv (remove t ids)"
  by (auto simp: table_inv_def data_remove distinct_map_filter list_all_iff)

lemma inj_on_rows:
  assumes "table_inv t"
  shows "inj_on snd (set (data_tbl t))"
proof (rule inj_onI)
  fix p q
  assume "p \<in> set (data_tbl t)" "q \<in> set (data_tbl t)" and e: "snd p = snd q"
  moreover have "\<forall>p \<in> set (data_tbl t). id_row (snd p) = fst p"
    using assms by (simp add: table_inv_def list_all_iff)
  ultimately have "fst p = fst q" by metis
  with e show "p = q" by (simp add: prod_eq_iff)
qed

lemma card_stored:
  assumes "table_inv t"
  shows "card (stored t) = Map_getCount (data_tbl t)"
proof -
  have d: "distinct (map fst (data_tbl t))"
    using assms by (simp add: table_inv_def)
  have "card (snd ` set (data_tbl t)) = card (set (data_tbl t))"
    using inj_on_rows[OF assms] by (rule card_image)
  also have "\<dots> = length (data_tbl t)"
    using d by (simp add: distinct_card distinct_map)
  finally show ?thesis
    using d by (simp add: stored_distinct Map_getCount_def)
qed

lemma stored_lookup:
  assumes "table_inv t"
  shows "Map_get (data_tbl t) i = Some r \<longleftrightarrow> r \<in> stored t \<and> id_row r = i"
proof -
  have d: "distinct (map fst (data_tbl t))" and
       k: "\<forall>p \<in> set (data_tbl t). id_row (snd p) = fst p"
    using assms by (auto simp: table_inv_def list_all_iff)
  show ?thesis
    using d k by (force simp: stored_distinct Map_get_def)
qed

lemma get_all_set: "table_inv t \<Longrightarrow> set (get t []) = stored t"
  by (simp add: get_empty stored_distinct table_inv_def)

lemma get_all_distinct:
  assumes "table_inv t"
  shows "distinct (get t [])"
proof -
  have "distinct (data_tbl t)"
    using assms by (simp add: table_inv_def distinct_map)
  with inj_on_rows[OF assms] show ?thesis
    by (simp add: get_empty distinct_map)
qed

lemma length_get_all: "length (get t []) = Map_getCount (data_tbl t)"
  by (simp add: get_empty Map_getCount_def)

subsection \<open>\<^verbatim>\<open>get\<close>\<close>

lemma sample_table_inv: "table_inv sample_table"
  by (simp add: table_inv_def sample_table_def)

text \<open>
  Claim C1. \<^verbatim>\<open>get(ids)\<close> on a table that satisfies the data invariant: for the empty
  list the result lists every stored row, each once; for a non-empty list the result
  holds exactly the stored rows whose identity occurs in the list. An id that is not
  present contributes nothing, and \<open>get\<close> has no failing branch.
\<close>

theorem get_all_or_listed:
  assumes "table_inv t"
  shows "(ids = [] \<longrightarrow>
            set (get t ids) = stored t \<and> distinct (get t ids) \<and>
            length (get t ids) = Map_getCount (data_tbl t)) \<and>
         (ids \<noteq> [] \<longrightarrow> set (get t ids) = {r \<in> stored t. id_row r \<in> set ids})"
proof (intro conjI impI)
  assume "ids = []"
  then show "set (get t ids) = stored t" "distinct (get t ids)"
    "length (get t ids) = Map_getCount (data_tbl t)"
    using get_all_set[OF assms] get_all_distinct[OF assms] length_get_all[of t] by simp_all
next
  assume "ids \<noteq> []"
  then show "set (get t ids) = {r \<in> stored t. id_row r \<in> set ids}"
    using stored_lookup[OF assms] by (auto simp: set_get_nonempty)
qed

theorem get_all_or_listed_witness:
  "table_inv sample_table \<and>
   set (get sample_table []) = stored sample_table \<and>
   set (get sample_table [5, 7, 1]) =
     {\<lparr>id_row = 1, payload = ''a''\<rparr>, \<lparr>id_row = 5, payload = ''c''\<rparr>}"
proof -
  have s: "stored sample_table =
     {\<lparr>id_row = 1, payload = ''a''\<rparr>, \<lparr>id_row = 2, payload = ''b''\<rparr>,
      \<lparr>id_row = 5, payload = ''c''\<rparr>}"
    by (simp add: stored_distinct sample_table_def)
  have f: "{r \<in> stored sample_table. id_row r \<in> set [5, 7, 1]} =
     {\<lparr>id_row = 1, payload = ''a''\<rparr>, \<lparr>id_row = 5, payload = ''c''\<rparr>}"
    unfolding s by auto
  have a: "set (get sample_table []) = stored sample_table"
    using get_all_or_listed[OF sample_table_inv, of "[]"] by blast
  have b: "set (get sample_table [5, 7, 1]) = {r \<in> stored sample_table. id_row r \<in> set [5, 7, 1]}"
    using get_all_or_listed[OF sample_table_inv, of "[5, 7, 1]"] by blast
  show ?thesis
    using a b f sample_table_inv by simp
qed

subsection \<open>\<^verbatim>\<open>remove\<close>\<close>

text \<open>
  Claim C2. \<^verbatim>\<open>remove(ids)\<close> on a table that satisfies the data invariant: when the
  list is empty, or as long as the number of stored rows, the table is empty afterwards;
  otherwise the table holds afterwards exactly the rows it held before whose identity is
  not listed. An id that is not present is passed over.
\<close>

theorem remove_clears_or_drops_listed:
  assumes "table_inv t"
  shows "(ids = [] \<or> length ids = card (stored t) \<longrightarrow>
            stored (remove t ids) = {} \<and> get (remove t ids) [] = []) \<and>
         (\<not> (ids = [] \<or> length ids = card (stored t)) \<longrightarrow>
            stored (remove t ids) = {r \<in> stored t. id_row r \<notin> set ids})"
proof -
  have d: "distinct (map fst (data_tbl t))" and
       k: "\<forall>p \<in> set (data_tbl t). id_row (snd p) = fst p"
    using assms by (auto simp: table_inv_def list_all_iff)
  have c: "card (stored t) = length (data_tbl t)"
    using card_stored[OF assms] by (simp add: Map_getCount_def)
  have d': "distinct (map fst (data_tbl (remove t ids)))"
    using table_inv_remove[OF assms, of ids] by (simp add: table_inv_def)
  show ?thesis
  proof (cases "ids = [] \<or> length ids = card (stored t)")
    case True
    then have "data_tbl (remove t ids) = []"
      by (auto simp: data_remove c)
    then show ?thesis
      using True by (simp add: stored_def Map_get_def[abs_def] get_empty)
  next
    case False
    then have e: "data_tbl (remove t ids) = filter (\<lambda>p. fst p \<notin> set ids) (data_tbl t)"
      by (auto simp: data_remove c)
    have "stored (remove t ids) = snd ` set (filter (\<lambda>p. fst p \<notin> set ids) (data_tbl t))"
      using d' by (simp add: stored_distinct e)
    also have "\<dots> = {r \<in> stored t. id_row r \<notin> set ids}"
      using k by (force simp: stored_distinct[OF d])
    finally show ?thesis
      using False by simp
  qed
qed

theorem remove_clears_or_drops_listed_witness:
  "table_inv sample_table \<and>
   stored (remove sample_table []) = {} \<and>
   stored (remove sample_table [7, 8, 9]) = {} \<and>
   stored (remove sample_table [2, 7]) =
     {\<lparr>id_row = 1, payload = ''a''\<rparr>, \<lparr>id_row = 5, payload = ''c''\<rparr>}"
proof -
  have s: "stored sample_table =
     {\<lparr>id_row = 1, payload = ''a''\<rparr>, \<lparr>id_row = 2, payload = ''b''\<rparr>,
      \<lparr>id_row = 5, payload = ''c''\<rparr>}"
    by (simp add: stored_distinct sample_table_def)
  have c: "card (stored sample_table) = 3"
    unfolding s by simp
  have f: "{r \<in> stored sample_table. id_row r \<notin> set [2, 7]} =
     {\<lparr>id_row = 1, payload = ''a''\<rparr>, \<lparr>id_row = 5, payload = ''c''\<rparr>}"
    unfolding s by auto
  have a: "stored (remove sample_table []) = {}"
    using remove_clears_or_drops_listed[OF sample_table_inv, of "[]"] by simp
  have b: "stored (remove sample_table [7, 8, 9]) = {}"
    using remove_clears_or_drops_listed[OF sample_table_inv, of "[7, 8, 9]"] c by simp
  have d: "stored (remove sample_table [2, 7]) = {r \<in> stored sample_table. id_row r \<notin> set [2, 7]}"
    using remove_clears_or_drops_listed[OF sample_table_inv, of "[2, 7]"] c by simp
  show ?thesis
    using a b d f sample_table_inv by simp
qed

lemma get_after_remove: "get (remove t ids) ids = []"
proof (cases "ids = []")
  case True
  then show ?thesis by (simp add: get_empty data_remove)
next
  case False
  have "Map_get (data_tbl (remove t ids)) i = None" if "i \<in> set ids" for i
    using that by (auto simp: Map_get_def data_remove map_of_eq_None_iff)
  then show ?thesis
    using False by (simp add: get_nonempty)
qed

text \<open>
  Claim C4. When every id of the list is the identity of a stored row, \<^verbatim>\<open>remove(ids)\<close>
  followed by \<^verbatim>\<open>get(ids)\<close> returns the empty list. (The lemma before it shows that
  the result is empty for any list of ids.)
\<close>

theorem remove_then_get_empty:
  assumes "set ids \<subseteq> id_row ` stored t"
  shows "get (remove t ids) ids = []"
  by (rule get_after_remove)

theorem remove_then_get_empty_witness:
  "set [1, 5] \<subseteq> id_row ` stored sample_table \<and>
   get (remove sample_table [1, 5]) [1, 5] = []"
proof -
  have s: "stored sample_table =
     {\<lparr>id_row = 1, payload = ''a''\<rparr>, \<lparr>id_row = 2, payload = ''b''\<rparr>,
      \<lparr>id_row = 5, payload = ''c''\<rparr>}"
    by (simp add: stored_distinct sample_table_def)
  have h: "set [1, 5] \<subseteq> id_row ` stored sample_table"
    unfolding s by simp
  from remove_then_get_empty[OF h] h show ?thesis by simp
qed

subsection \<open>The order of the result of \<^verbatim>\<open>get\<close>\<close>

text \<open>
  Claim C10. For a non-empty list of ids, \<^verbatim>\<open>get\<close> walks the list from left to right
  and returns the row found under each id, nothing for an id that is absent; on a table
  that satisfies the data invariant the identities of the result are the input list
  restricted to the identities stored, in the order and multiplicity of the input.
\<close>

theorem get_keeps_input_order:
  assumes "ids \<noteq> []"
  shows "get t ids =
           concat (map (\<lambda>i. case Map_get (data_tbl t) i of None \<Rightarrow> [] | Some row \<Rightarrow> [row]) ids) \<and>
         (table_inv t \<longrightarrow> map id_row (get t ids) = filter (\<lambda>i. i \<in> id_row ` stored t) ids)"
proof (intro conjI impI)
  show g: "get t ids =
     concat (map (\<lambda>i. case Map_get (data_tbl t) i of None \<Rightarrow> [] | Some row \<Rightarrow> [row]) ids)"
    using assms by (rule get_nonempty)
  assume inv: "table_inv t"
  have "map id_row (concat (map (\<lambda>i. case Map_get (data_tbl t) i of None \<Rightarrow> [] | Some row \<Rightarrow> [row]) js))
          = filter (\<lambda>i. i \<in> id_row ` stored t) js" for js
  proof (induction js)
    case Nil
    show ?case by simp
  next
    case (Cons j js)
    show ?case
    proof (cases "Map_get (data_tbl t) j")
      case None
      have "j \<notin> id_row ` stored t"
      proof
        assume "j \<in> id_row ` stored t"
        then obtain r where "r \<in> stored t" "id_row r = j" by auto
        then have "Map_get (data_tbl t) j = Some r"
          using stored_lookup[OF inv, of j r] by simp
        with None show False by simp
      qed
      with None Cons.IH show ?thesis by simp
    next
      case (Some r)
      then have "r \<in> stored t" "id_row r = j"
        using stored_lookup[OF inv] by auto
      then have "j \<in> id_row ` stored t" by auto
      with Some Cons.IH \<open>id_row r = j\<close> show ?thesis by simp
    qed
  qed
  then show "map id_row (get t ids) = filter (\<lambda>i. i \<in> id_row ` stored t) ids"
    by (simp add: g)
qed

theorem get_keeps_input_order_witness:
  "[5, 7, 1, 5] \<noteq> ([]::nat list) \<and> table_inv sample_table \<and>
   get sample_table [5, 7, 1, 5] =
     [\<lparr>id_row = 5, payload = ''c''\<rparr>, \<lparr>id_row = 1, payload = ''a''\<rparr>,
      \<lparr>id_row = 5, payload = ''c''\<rparr>] \<and>
   map id_row (get sample_table [5, 7, 1, 5]) = [5, 1, 5]"
proof -
  have n: "[5, 7, 1, 5] \<noteq> ([]::nat list)" by simp
  have "get sample_table [5, 7, 1, 5] =
     [\<lparr>id_row = 5, payload = ''c''\<rparr>, \<lparr>id_row = 1, payload = ''a''\<rparr>,
      \<lparr>id_row = 5, payload = ''c''\<rparr>]"
    using get_keeps_input_order[OF n, of sample_table]
    by (simp add: Map_get_def sample_table_def)
  then show ?thesis
    using sample_table_inv by simp
qed

subsection \<open>\<^verbatim>\<open>put\<close> followed by \<^verbatim>\<open>get\<close>\<close>

lemma lookup_after_sets:
  "k \<in> id_row ` set rows \<Longrightarrow>
   \<exists>r \<in> set rows. id_row r = k \<and>
     map_of (foldl (\<lambda>m row. Map_set (id_row row) row m) m0 rows) k = Some r"
proof (induction rows rule: rev_induct)
  case Nil
  then show ?case by simp
next
  case (snoc r rows)
  show ?case
  proof (cases "id_row r = k")
    case True
    then show ?thesis by (auto simp: map_of_Map_set)
  next
    case False
    with snoc.prems have "k \<in> id_row ` set rows" by auto
    from snoc.IH[OF this] False show ?thesis by (auto simp: map_of_Map_set)
  qed
qed

text \<open>
  Claim C3, as amended. When the list of rows is not empty and rows of the list that share
  an identity are equal, \<^verbatim>\<open>put(rows)\<close> followed by \<^verbatim>\<open>get\<close> on the identities of the
  rows returns the rows of the list, as a set. This holds for every table.
\<close>

theorem put_then_get:
  assumes "rows \<noteq> []"
      and "\<forall>r \<in> set rows. \<forall>r' \<in> set rows. id_row r = id_row r' \<longrightarrow> r = r'"
  shows "set (get (put t rows) (map id_row rows)) = set rows"
proof -
  have l: "Map_get (data_tbl (put t rows)) (id_row r) = Some r" if "r \<in> set rows" for r
  proof -
    from that have "id_row r \<in> id_row ` set rows" by simp
    from lookup_after_sets[OF this, of "data_tbl t"]
    obtain r' where "r' \<in> set rows" "id_row r' = id_row r"
      "Map_get (data_tbl (put t rows)) (id_row r) = Some r'"
      by (auto simp: Map_get_def data_put)
    with assms(2) that show ?thesis by metis
  qed
  have "set (get (put t rows) (map id_row rows)) =
          {r. \<exists>i \<in> set (map id_row rows). Map_get (data_tbl (put t rows)) i = Some r}"
    using assms(1) by (simp add: set_get_nonempty)
  also have "\<dots> = set rows"
    using l by auto
  finally show ?thesis .
qed

text \<open>A run of the amended statement: one row overwrites a stored one, one is new.\<close>

theorem put_then_get_witness:
  "set (get (put sample_table [\<lparr>id_row = 2, payload = ''x''\<rparr>, \<lparr>id_row = 9, payload = ''y''\<rparr>])
          (map id_row [\<lparr>id_row = 2, payload = ''x''\<rparr>, \<lparr>id_row = 9, payload = ''y''\<rparr>]))
     = {\<lparr>id_row = 2, payload = ''x''\<rparr>, \<lparr>id_row = 9, payload = ''y''\<rparr>}"
  using put_then_get[of "[\<lparr>id_row = 2, payload = ''x''\<rparr>, \<lparr>id_row = 9, payload = ''y''\<rparr>]" sample_table]
  by simp

text \<open>
  The statement for every list fails in two ways. With the empty list nothing is put, and
  \<^verbatim>\<open>get([])\<close> returns every stored row. With two different rows of one identity the
  second overwrites the first, and only the second comes back.
\<close>

theorem put_then_get_counterexample:
  "set (get (put sample_table []) (map id_row [])) \<noteq> set [] \<and>
   set (get (put new_MemoryTable [\<lparr>id_row = 1, payload = ''a''\<rparr>, \<lparr>id_row = 1, payload = ''z''\<rparr>])
          (map id_row [\<lparr>id_row = 1, payload = ''a''\<rparr>, \<lparr>id_row = 1, payload = ''z''\<rparr>]))
     \<noteq> set [\<lparr>id_row = 1, payload = ''a''\<rparr>, \<lparr>id_row = 1, payload = ''z''\<rparr>]"
  by (simp add: get_def put_def getAll_def Map_getValues_def Map_get_def
        sample_table_def new_MemoryTable_def)

section \<open>Properties of the engine facade\<close>

lemma getPlan_sequence:
  "getPlan this query s =
     (case logicalPlanFactory this query s of
        (Inl e, s') \<Rightarrow> (Inl e, s')
      | (Inr l, s') \<Rightarrow> physicalPlanFactory this l s')"
  by (simp add: getPlan_def convertToLogicalPlan_def convertToPhysicalPlan_def
        split: prod.splits sum.splits)

text \<open>
  Claim C5. For any two factories, what \<^verbatim>\<open>getPlan\<close> returns and what it leaves of the
  storage is what the logical \<^verbatim>\<open>create\<close> followed by the physical \<^verbatim>\<open>create\<close> on its
  plan return and leave (the exception and the storage of the first when it throws):
  \<^verbatim>\<open>getPlan\<close> adds no access of its own. With the planner of the spec, for every query
  and every storage, the storage is left as it was and the result is the physical plan of
  the logical plan of the query, or the planning error; it does not depend on the
  storage.
\<close>

theorem getPlan_two_stage:
  "getPlan this query s =
     (case logicalPlanFactory this query s of
        (Inl e, s') \<Rightarrow> (Inl e, s')
      | (Inr l, s') \<Rightarrow> physicalPlanFactory this l s') \<and>
   getPlan engine q db =
     ((case LogicalPlanFactory_create q of
         Inl e \<Rightarrow> Inl e
       | Inr l \<Rightarrow> PhysicalPlanFactory_create l), db)"
  by (simp add: getPlan_sequence engine_def split: sum.splits)

text \<open>
  The engine on the implicit join of the tests with the from list reversed: the plan has
  the predicate on one table pushed to that table and the equality of two columns
  turned into a join. Without a table the planning error comes back.
\<close>

theorem getPlan_two_stage_witness:
  "getPlan engine
     (select_from_two ''Job'' ''Employee''
        (And (Eq (''Employee'', ''jobId'') (TextV ''jobId1''))
             (EqCol (''Employee'', ''jobId'') (''Job'', ''id''))) [] [])
     sample_storage =
     (Inr (ProjectStep [] []
             (JoinStep (EqCol (''Employee'', ''jobId'') (''Job'', ''id''))
                (TableAccessStep ''Job'')
                (SelectStep (Eq (''Employee'', ''jobId'') (TextV ''jobId1''))
                   (TableAccessStep ''Employee'')))),
      sample_storage) \<and>
   getPlan engine
     ((select_from_two ''Job'' ''Employee''
        (And (Eq (''Employee'', ''jobId'') (TextV ''jobId1''))
             (EqCol (''Employee'', ''jobId'') (''Job'', ''id''))) [] [])\<lparr>from_tables := []\<rparr>)
     sample_storage = (Inl PlanError, sample_storage)"
  using getPlan_two_stage[THEN conjunct2, of
          "select_from_two ''Job'' ''Employee''
             (And (Eq (''Employee'', ''jobId'') (TextV ''jobId1''))
                  (EqCol (''Employee'', ''jobId'') (''Job'', ''id''))) [] []" sample_storage]
        getPlan_two_stage[THEN conjunct2, of
          "(select_from_two ''Job'' ''Employee''
             (And (Eq (''Employee'', ''jobId'') (TextV ''jobId1''))
                  (EqCol (''Employee'', ''jobId'') (''Job'', ''id''))) [] [])\<lparr>from_tables := []\<rparr>"
          sample_storage]
  by (simp add: select_from_two_def LogicalPlanFactory_create_def initial_tree_def
        PhysicalPlanFactory_create_def from_single_child_def from_different_sides_def)

section \<open>Properties of the modelled planner and operators\<close>

subsection \<open>The sample tables\<close>

lemma sample_jobs_inv: "table_inv (sample_storage ''Job'')"
  by (simp add: table_inv_def sample_storage_def sample_jobs_def)

lemma sample_jobs_all:
  "get (sample_storage ''Job'') [] =
     [\<lparr>id_row = 1, payload = [''id'' \<mapsto> TextV ''jobId0'', ''title'' \<mapsto> TextV ''Clerk'',
                                ''minSalary'' \<mapsto> IntV 100, ''maxSalary'' \<mapsto> IntV 500]\<rparr>,
      \<lparr>id_row = 2, payload = [''id'' \<mapsto> TextV ''jobId1'', ''title'' \<mapsto> TextV ''Engineer'',
                                ''minSalary'' \<mapsto> IntV 200, ''maxSalary'' \<mapsto> IntV 700]\<rparr>,
      \<lparr>id_row = 3, payload = [''id'' \<mapsto> TextV ''jobId2'', ''title'' \<mapsto> TextV ''Manager'',
                                ''minSalary'' \<mapsto> IntV 150, ''maxSalary'' \<mapsto> IntV 700]\<rparr>]"
  by (simp add: get_empty sample_storage_def sample_jobs_def)


subsection \<open>The order of values and the sort of OrderBy\<close>

lemma val_le_refl: "val_le a a"
  by (cases a) simp_all

lemma val_le_total: "val_le a b \<or> val_le b a"
  by (cases a; cases b) auto

lemma val_le_trans: "val_le a b \<Longrightarrow> val_le b c \<Longrightarrow> val_le a c"
  by (cases a; cases b; cases c) auto

lemma val_le_antisym: "val_le a b \<Longrightarrow> val_le b a \<Longrightarrow> a = b"
  by (cases a; cases b) auto

lemma le_specs_refl: "le_specs specs a a"
  by (induction specs) auto




lemma mset_insort_by: "mset (insort_by le x xs) = add_mset x (mset xs)"
  by (induction xs) auto

lemma mset_sort_by: "mset (sort_by le xs) = mset xs"
  unfolding sort_by_def by (induction xs) (auto simp: mset_insort_by)






subsection \<open>The rewrite rules keep the relation\<close>

lemma getPlan_engine:
  "getPlan engine query db =
     ((case LogicalPlanFactory_create query of
         Inl e \<Rightarrow> Inl e
       | Inr l \<Rightarrow> PhysicalPlanFactory_create l), db)"
  by (simp add: getPlan_def convertToLogicalPlan_def convertToPhysicalPlan_def engine_def
        split: sum.splits)

lemma cell_single: "cell (t, c) [t \<mapsto> p] = value_of p c"
  by (simp add: cell_def value_of_def)

lemma exec_Limit: "exec db (to_physical (Limit n c)) = take n (exec db (to_physical c))"
  by (cases c) simp_all

lemma scope_Limit: "scope (to_physical (Limit n c)) = scope (to_physical c)"
  by (cases c) simp_all

lemma cell_cong: "r (fst c) = r' (fst c) \<Longrightarrow> cell c r = cell c r'"
  by (simp add: cell_def)

lemma evaluate_cong:
  "\<forall>t \<in> set (pred_tables p). r t = r' t \<Longrightarrow> evaluate p r = evaluate p r'"
proof (induction p)
  case (Eq c v)
  then show ?case using cell_cong[of r c r'] by simp
next
  case (Lt c v)
  then show ?case using cell_cong[of r c r'] by simp
next
  case (Gt c v)
  then show ?case using cell_cong[of r c r'] by simp
next
  case (EqCol c d)
  then show ?case using cell_cong[of r c r'] cell_cong[of r d r'] by simp
qed auto

lemma set_sort_by: "set (sort_by le xs) = set xs"
  using mset_sort_by[of le xs] by (rule mset_eq_setD)

lemma dom_annotate: "dom (annotate a v r) = insert (fst (agg_col a)) (dom r)"
  by (simp add: annotate_def Let_def)

lemma dom_annotate_all:
  "dom (foldl (\<lambda>r' a. annotate a (f a) r') r aggs) = dom r \<union> set (map (\<lambda>a. fst (agg_col a)) aggs)"
  by (induction aggs arbitrary: r) (auto simp: dom_annotate)

lemma dom_restrict_cols: "dom (restrict_cols cols r) = dom r"
  by (auto simp: restrict_cols_def dom_def split: option.splits)

lemma dom_project:
  assumes "\<forall>r \<in> set rel. dom r \<subseteq> D" and "r \<in> set (project cols aggs rel)"
  shows "dom r \<subseteq> D \<union> set (map (\<lambda>a. fst (agg_col a)) aggs)"
proof (cases "aggs = []")
  case True
  show ?thesis
  proof (cases "cols = []")
    case c: True
    with True assms show ?thesis by (auto simp: project_def)
  next
    case c: False
    with True assms(2) obtain r0 where "r0 \<in> set rel" "r = restrict_cols cols r0"
      by (auto simp: project_def)
    then have "r0 \<in> set rel" "dom r = dom r0"
      by (simp_all add: dom_restrict_cols)
    with assms(1) show ?thesis by blast
  qed
next
  case False
  show ?thesis
  proof (cases "cols = []")
    case True
    with False assms(2) have "dom r = set (map (\<lambda>a. fst (agg_col a)) aggs)"
      by (simp add: project_def Let_def dom_annotate_all)
    then show ?thesis by blast
  next
    case c: False
    with False assms(2) obtain r0 where "r0 \<in> set rel"
      and "dom r = dom r0 \<union> set (map (\<lambda>a. fst (agg_col a)) aggs)"
      by (auto simp: project_def Let_def dom_annotate_all dom_restrict_cols)
    with assms(1) show ?thesis by blast
  qed
qed

lemma dom_exec:
  "r \<in> set (exec db (to_physical c)) \<Longrightarrow> dom r \<subseteq> set (plan_tables c)"
proof (induction c arbitrary: r)
  case (TableAccess t)
  then show ?case by (auto split: if_splits)
next
  case (Select p c)
  then show ?case by simp
next
  case (Project cols aggs c)
  have "dom r \<subseteq> set (plan_tables c) \<union> set (map (\<lambda>a. fst (agg_col a)) aggs)"
  proof (rule dom_project)
    show "\<forall>r \<in> set (exec db (to_physical c)). dom r \<subseteq> set (plan_tables c)"
      using Project.IH by blast
    show "r \<in> set (project cols aggs (exec db (to_physical c)))"
      using Project.prems by simp
  qed
  then show ?case by simp
next
  case (CrossProduct l r')
  from CrossProduct.prems obtain a b where
    "a \<in> set (exec db (to_physical l))" "b \<in> set (exec db (to_physical r'))" "r = a ++ b"
    by auto
  with CrossProduct.IH show ?case
    by (simp only: plan_tables.simps dom_map_add set_append) blast
next
  case (Join p l r')
  from Join.prems obtain a b where
    "a \<in> set (exec db (to_physical l))" "b \<in> set (exec db (to_physical r'))" "r = a ++ b"
    by auto
  with Join.IH show ?case
    by (simp only: plan_tables.simps dom_map_add set_append) blast
next
  case (OrderBy specs c)
  then show ?case by (simp add: set_sort_by)
next
  case (Skip n c)
  then show ?case by (auto dest: in_set_dropD)
next
  case (Limit n c)
  then show ?case by (auto simp: exec_Limit simp del: to_physical.simps dest: in_set_takeD)
qed

lemma plan_tables_push_down: "plan_tables (push_down p c) = plan_tables c"
  by (induction p c rule: push_down.induct) auto

lemma scope_push_down: "scope (to_physical (push_down p c)) = scope (to_physical c)"
  by (induction p c rule: push_down.induct) auto

lemma filter_cross_left:
  assumes "\<And>a b. a \<in> set xs \<Longrightarrow> b \<in> set ys \<Longrightarrow> P (f a b) = Q a"
  shows "filter P (concat (map (\<lambda>a. map (f a) ys) xs)) =
         concat (map (\<lambda>a. map (f a) ys) (filter Q xs))"
  using assms
proof (induction xs)
  case Nil
  show ?case by simp
next
  case (Cons x xs)
  have "filter P (map (f x) ys) = (if Q x then map (f x) ys else [])"
    using Cons.prems by (auto simp: filter_map o_def filter_empty_conv)
  with Cons show ?case by simp
qed

lemma filter_cross_right:
  assumes "\<And>a b. a \<in> set xs \<Longrightarrow> b \<in> set ys \<Longrightarrow> P (f a b) = Q b"
  shows "filter P (concat (map (\<lambda>a. map (f a) ys) xs)) =
         concat (map (\<lambda>a. map (f a) (filter Q ys)) xs)"
  using assms
proof (induction xs)
  case Nil
  show ?case by simp
next
  case (Cons x xs)
  have "filter (\<lambda>b. P (f x b)) ys = filter Q ys"
    using Cons.prems by (intro filter_cong) auto
  then have "filter P (map (f x) ys) = map (f x) (filter Q ys)"
    by (simp add: filter_map o_def)
  with Cons show ?case by simp
qed

lemma evaluate_left:
  assumes "from_single_child p l r"
      and "a \<in> set (exec db (to_physical l))" "b \<in> set (exec db (to_physical r))"
  shows "evaluate p (a ++ b) = evaluate p a"
proof (rule evaluate_cong, rule ballI)
  fix t
  assume "t \<in> set (pred_tables p)"
  with assms(1) have "t \<notin> set (plan_tables r)"
    by (auto simp: from_single_child_def list_all_iff)
  with dom_exec[OF assms(3)] have "b t = None" by blast
  then show "(a ++ b) t = a t" by (simp add: map_add_def)
qed

lemma evaluate_right:
  assumes "from_single_child p r l"
      and "a \<in> set (exec db (to_physical l))" "b \<in> set (exec db (to_physical r))"
  shows "evaluate p (a ++ b) = evaluate p b"
proof (rule evaluate_cong, rule ballI)
  fix t
  assume "t \<in> set (pred_tables p)"
  with assms(1) have "t \<notin> set (plan_tables l)"
    by (auto simp: from_single_child_def list_all_iff)
  with dom_exec[OF assms(2)] have "a t = None" by blast
  then show "(a ++ b) t = b t" by (simp add: map_add_def split: option.splits)
qed

lemma filter_commute: "filter P (filter Q xs) = filter Q (filter P xs)"
  by (induction xs) auto

lemma exec_push_down:
  "exec db (to_physical (push_down p c)) = filter (evaluate p) (exec db (to_physical c))"
proof (induction p c rule: push_down.induct)
  case (1 p l r)
  show ?case
  proof (cases "from_single_child p l r")
    case True
    have "filter (evaluate p) (concat (map (\<lambda>a. map (\<lambda>b. a ++ b) (exec db (to_physical r)))
                                         (exec db (to_physical l)))) =
          concat (map (\<lambda>a. map (\<lambda>b. a ++ b) (exec db (to_physical r)))
                    (filter (evaluate p) (exec db (to_physical l))))"
      by (rule filter_cross_left) (rule evaluate_left[OF True])
    with True 1 show ?thesis by simp
  next
    case False
    show ?thesis
    proof (cases "from_single_child p r l")
      case True
      have "filter (evaluate p) (concat (map (\<lambda>a. map (\<lambda>b. a ++ b) (exec db (to_physical r)))
                                           (exec db (to_physical l)))) =
            concat (map (\<lambda>a. map (\<lambda>b. a ++ b) (filter (evaluate p) (exec db (to_physical r))))
                      (exec db (to_physical l)))"
        by (rule filter_cross_right) (rule evaluate_right[OF True])
      with True False 1 show ?thesis by simp
    next
      case f: False
      with False show ?thesis by simp
    qed
  qed
next
  case (2 p q l r)
  let ?X = "\<lambda>L R. concat (map (\<lambda>a. map (\<lambda>b. a ++ b) R) L)"
  show ?case
  proof (cases "from_single_child p l r")
    case True
    have "filter (evaluate p) (?X (exec db (to_physical l)) (exec db (to_physical r))) =
          ?X (filter (evaluate p) (exec db (to_physical l))) (exec db (to_physical r))"
      by (rule filter_cross_left) (rule evaluate_left[OF True])
    then have "filter (evaluate q) (?X (filter (evaluate p) (exec db (to_physical l))) (exec db (to_physical r)))
             = filter (evaluate p) (filter (evaluate q) (?X (exec db (to_physical l)) (exec db (to_physical r))))"
      by (simp only: filter_commute[of "evaluate p" "evaluate q"])
    with True 2 show ?thesis by simp
  next
    case False
    show ?thesis
    proof (cases "from_single_child p r l")
      case True
      have "filter (evaluate p) (?X (exec db (to_physical l)) (exec db (to_physical r))) =
            ?X (exec db (to_physical l)) (filter (evaluate p) (exec db (to_physical r)))"
        by (rule filter_cross_right) (rule evaluate_right[OF True])
      then have "filter (evaluate q) (?X (exec db (to_physical l)) (filter (evaluate p) (exec db (to_physical r))))
             = filter (evaluate p) (filter (evaluate q) (?X (exec db (to_physical l)) (exec db (to_physical r))))"
        by (simp only: filter_commute[of "evaluate p" "evaluate q"])
      with True False 2 show ?thesis by simp
    next
      case f: False
      with False show ?thesis by simp
    qed
  qed
next
  case (3 p q c)
  then show ?case by (simp only: push_down.simps to_physical.simps exec.simps filter_commute[of "evaluate p" "evaluate q"])
qed simp_all

lemma evaluate_conjuncts: "evaluate p r \<longleftrightarrow> (\<forall>q \<in> set (conjuncts p). evaluate q r)"
  by (induction p rule: conjuncts.induct) auto

lemma exec_push_all:
  "exec db (to_physical (foldr push_down ps c)) =
     filter (\<lambda>r. \<forall>q \<in> set ps. evaluate q r) (exec db (to_physical c))"
  by (induction ps) (auto simp: exec_push_down intro: filter_cong)

lemma scope_push_all: "scope (to_physical (foldr push_down ps c)) = scope (to_physical c)"
  by (induction ps) (simp_all add: scope_push_down)

lemma plan_tables_push_all: "plan_tables (foldr push_down ps c) = plan_tables c"
  by (induction ps) (simp_all add: plan_tables_push_down)

lemma exec_push_selects: "exec db (to_physical (push_selects c)) = exec db (to_physical c)"
proof (induction c)
  case (Select p c)
  have "filter (\<lambda>r. \<forall>q \<in> set (conjuncts p). evaluate q r) (exec db (to_physical c)) =
        filter (evaluate p) (exec db (to_physical c))"
    by (rule filter_cong) (simp_all add: evaluate_conjuncts[of p])
  with Select show ?case by (simp add: exec_push_all)
next
  case (Limit n c)
  then show ?case by (simp only: push_selects.simps exec_Limit)
qed simp_all

lemma scope_push_selects: "scope (to_physical (push_selects c)) = scope (to_physical c)"
proof (induction c)
  case (Limit n c)
  then show ?case by (simp only: push_selects.simps scope_Limit)
qed (simp_all add: scope_push_all)

lemma plan_tables_push_selects: "plan_tables (push_selects c) = plan_tables c"
  by (induction c) (simp_all add: plan_tables_push_all)

lemma exec_infer_joins: "exec db (to_physical (infer_joins c)) = exec db (to_physical c)"
proof (induction c rule: infer_joins.induct)
  case (1 c d l r)
  then show ?case by simp
qed (simp_all add: exec_Limit)

lemma scope_infer_joins: "scope (to_physical (infer_joins c)) = scope (to_physical c)"
proof (induction c rule: infer_joins.induct)
  case (1 c d l r)
  then show ?case by simp
qed (simp_all add: scope_Limit)

lemma run_select_initial:
  assumes "from_tables query = t # ts"
  shows "run_select db query =
           Inr (map (shape (scope (to_physical (initial_tree t ts query))))
                  (exec db (to_physical (initial_tree t ts query))))"
  using assms
  by (simp add: run_select_def getPlan_engine LogicalPlanFactory_create_def
        PhysicalPlanFactory_create_def execute_def exec_infer_joins exec_push_selects
        scope_infer_joins scope_push_selects)

subsection \<open>Select with a predicate\<close>

lemma shape_single: "shape [t] [t \<mapsto> p] = Flat p"
  by (simp add: shape_def)

lemma run_select_where:
  "run_select db (select_where t p) =
     Inr (map (\<lambda>row. Flat (payload row))
            (filter (\<lambda>row. evaluate p [t \<mapsto> payload row]) (get (db t) [])))"
proof -
  have "from_tables (select_where t p) = t # []"
    by (simp add: select_where_def)
  from run_select_initial[OF this, of db] show ?thesis
    by (simp add: select_where_def initial_tree_def project_def filter_map o_def shape_single)
qed

text \<open>
  Claim C6. On a table that satisfies the data invariant, \<^verbatim>\<open>select * from t where p\<close>
  returns a result, and its rows are exactly the payloads of the stored rows on which
  \<open>p\<close> evaluates to true: the set of result rows is the image of that set of rows, and
  there are as many result rows as there are such rows.
\<close>

theorem select_where_exact:
  assumes "table_inv (db t)"
  shows "\<exists>rs. run_select db (select_where t p) = Inr rs \<and>
           set rs = (\<lambda>row. Flat (payload row)) `
                      {row \<in> stored (db t). evaluate p [t \<mapsto> payload row]} \<and>
           length rs = card {row \<in> stored (db t). evaluate p [t \<mapsto> payload row]}"
proof -
  let ?P = "\<lambda>row. evaluate p [t \<mapsto> payload row]"
  let ?rs = "map (\<lambda>row. Flat (payload row)) (filter ?P (get (db t) []))"
  have s: "set (filter ?P (get (db t) [])) = {row \<in> stored (db t). ?P row}"
    using get_all_set[OF assms] by auto
  have "distinct (filter ?P (get (db t) []))"
    using get_all_distinct[OF assms] by simp
  then have "length (filter ?P (get (db t) [])) = card (set (filter ?P (get (db t) [])))"
    by (simp only: distinct_card)
  then have "length ?rs = card {row \<in> stored (db t). ?P row}"
    by (simp only: s length_map)
  moreover have "set ?rs = (\<lambda>row. Flat (payload row)) ` {row \<in> stored (db t). ?P row}"
    by (simp only: set_map s)
  ultimately show ?thesis
    using run_select_where[of db t p] by blast
qed

theorem select_where_exact_witness:
  "table_inv (sample_storage ''Job'') \<and>
   (\<exists>rs. run_select sample_storage (select_where ''Job'' (Eq (''Job'', ''id'') (TextV ''jobId2'')))
            = Inr rs \<and>
         rs = [Flat [''id'' \<mapsto> TextV ''jobId2'', ''title'' \<mapsto> TextV ''Manager'',
                     ''minSalary'' \<mapsto> IntV 150, ''maxSalary'' \<mapsto> IntV 700]] \<and>
         length rs = card {row \<in> stored (sample_storage ''Job'').
                             evaluate (Eq (''Job'', ''id'') (TextV ''jobId2''))
                               [''Job'' \<mapsto> payload row]})"
proof -
  let ?p = "Eq (''Job'', ''id'') (TextV ''jobId2'')"
  from select_where_exact[of sample_storage "''Job''" ?p, OF sample_jobs_inv]
  obtain rs where r: "run_select sample_storage (select_where ''Job'' ?p) = Inr rs"
    and l: "length rs = card {row \<in> stored (sample_storage ''Job'').
                             evaluate ?p [''Job'' \<mapsto> payload row]}"
    by blast
  have "run_select sample_storage (select_where ''Job'' ?p) =
          Inr [Flat [''id'' \<mapsto> TextV ''jobId2'', ''title'' \<mapsto> TextV ''Manager'',
                     ''minSalary'' \<mapsto> IntV 150, ''maxSalary'' \<mapsto> IntV 700]]"
    by (simp add: run_select_where sample_jobs_all cell_def)
  with r have "rs = [Flat [''id'' \<mapsto> TextV ''jobId2'', ''title'' \<mapsto> TextV ''Manager'',
                     ''minSalary'' \<mapsto> IntV 150, ''maxSalary'' \<mapsto> IntV 700]]"
    by simp
  with r l sample_jobs_inv show ?thesis by blast
qed

subsection \<open>The result of any select\<close>












subsection \<open>Select with order-by\<close>






lemma cell_restrict_cols: "c \<in> set cols \<Longrightarrow> cell c (restrict_cols cols r) = cell c r"
  by (cases c) (simp add: cell_def restrict_cols_def split: option.splits)




subsection \<open>Aggregators next to columns\<close>

lemma restrict_cols_single:
  "restrict_cols (map (Pair t) cols) [t \<mapsto> p] = [t \<mapsto> (\<lambda>c. if c \<in> set cols then p c else None)]"
  by (auto simp: restrict_cols_def fun_eq_iff)

lemma run_select_with_aggregator:
  assumes "cols \<noteq> []" and "fst (agg_col a) = t"
  shows "run_select db (select_with_aggregator t cols a) =
     Inr (map (\<lambda>row. Flat ((\<lambda>c. if c \<in> set cols then payload row c else None)
                              (agg_name a \<mapsto>
                                 agg_fn a (map (\<lambda>row. value_of (payload row) (snd (agg_col a)))
                                             (get (db t) [])))))
            (get (db t) []))"
proof -
  let ?rel = "map (\<lambda>row. [t \<mapsto> payload row]) (get (db t) [])"
  have f: "from_tables (select_with_aggregator t cols a) = t # []"
    by (simp add: select_with_aggregator_def)
  have plan: "to_physical (initial_tree t [] (select_with_aggregator t cols a)) =
        ProjectStep (map (Pair t) cols) [a] (TableAccessStep t)"
    by (simp add: select_with_aggregator_def initial_tree_def)
  have c: "agg_col a = (t, snd (agg_col a))"
    using assms(2) by (simp add: prod_eq_iff)
  have sc: "scalar a ?rel =
        agg_fn a (map (\<lambda>row. value_of (payload row) (snd (agg_col a))) (get (db t) []))"
  proof -
    have "cell (agg_col a) [t \<mapsto> p] = value_of p (snd (agg_col a))" for p
      using cell_single[of t "snd (agg_col a)" p] c by simp
    then show ?thesis
      by (simp add: scalar_def o_def)
  qed
  have an: "annotate a v [t \<mapsto> p] = [t \<mapsto> p(agg_name a \<mapsto> v)]" for v p
    using assms(2) by (simp add: annotate_def)
  have "exec db (ProjectStep (map (Pair t) cols) [a] (TableAccessStep t)) =
        map (\<lambda>row. [t \<mapsto> (\<lambda>c. if c \<in> set cols then payload row c else None)
                             (agg_name a \<mapsto> scalar a ?rel)]) (get (db t) [])"
    using assms(1) by (simp add: project_def o_def restrict_cols_single an)
  then show ?thesis
    by (simp add: run_select_initial[OF f] plan o_def shape_single sc)
qed

text \<open>
  Claim C8. A select of columns \<open>cols\<close> (at least one) and an aggregator over a column
  of the same table, from a table of n rows, returns n rows. Row i carries the values
  that the i-th row of the table has in the columns \<open>cols\<close>, and under the aggregator's
  name the one scalar that the aggregator computes from the aggregated column of all
  rows; it carries nothing else.
\<close>

theorem aggregator_broadcast:
  assumes "cols \<noteq> []" and "fst (agg_col a) = t"
  shows "\<exists>ps. run_select db (select_with_aggregator t cols a) = Inr (map Flat ps) \<and>
           length ps = Map_getCount (data_tbl (db t)) \<and>
           length ps = length (get (db t) []) \<and>
           (\<forall>i < length ps.
              (\<forall>c \<in> set cols. c \<noteq> agg_name a \<longrightarrow> (ps ! i) c = payload (get (db t) [] ! i) c) \<and>
              (ps ! i) (agg_name a) =
                 Some (agg_fn a (map (\<lambda>row. value_of (payload row) (snd (agg_col a)))
                                   (get (db t) []))) \<and>
              dom (ps ! i) \<subseteq> set cols \<union> {agg_name a})"
proof -
  let ?v = "agg_fn a (map (\<lambda>row. value_of (payload row) (snd (agg_col a))) (get (db t) []))"
  let ?ps = "map (\<lambda>row. (\<lambda>c. if c \<in> set cols then payload row c else None)(agg_name a \<mapsto> ?v))
               (get (db t) [])"
  have "run_select db (select_with_aggregator t cols a) = Inr (map Flat ?ps)"
    using run_select_with_aggregator[OF assms, of db] by (simp add: o_def)
  moreover have "length ?ps = Map_getCount (data_tbl (db t))"
    by (simp add: length_get_all)
  moreover have "length ?ps = length (get (db t) [])"
    by simp
  moreover have "\<forall>i < length ?ps.
      (\<forall>c \<in> set cols. c \<noteq> agg_name a \<longrightarrow> (?ps ! i) c = payload (get (db t) [] ! i) c) \<and>
      (?ps ! i) (agg_name a) = Some ?v \<and>
      dom (?ps ! i) \<subseteq> set cols \<union> {agg_name a}"
    by (auto split: if_splits)
  ultimately show ?thesis by blast
qed

theorem aggregator_broadcast_witness:
  "[''title'', ''maxSalary''] \<noteq> [] \<and> fst (agg_col (fn_min (''Job'', ''maxSalary''))) = ''Job'' \<and>
   (\<exists>ps. run_select sample_storage
             (select_with_aggregator ''Job'' [''title'', ''maxSalary''] (fn_min (''Job'', ''maxSalary'')))
            = Inr (map Flat ps) \<and>
         length ps = 3 \<and>
         (\<forall>i < length ps. (ps ! i) ''MIN(maxSalary)'' = Some (IntV 500)) \<and>
         map (\<lambda>p. p ''title'') ps =
           [Some (TextV ''Clerk''), Some (TextV ''Engineer''), Some (TextV ''Manager'')])"
proof -
  let ?a = "fn_min (''Job'', ''maxSalary'')"
  have c: "[''title'', ''maxSalary''] \<noteq> []" by simp
  have t: "fst (agg_col ?a) = ''Job''" by (simp add: fn_min_def)
  have n: "agg_name ?a = ''MIN(maxSalary)''" by (simp add: fn_min_def)
  have v: "agg_fn ?a (map (\<lambda>row. value_of (payload row) (snd (agg_col ?a)))
                        (get (sample_storage ''Job'') [])) = IntV 500"
    by (simp add: fn_min_def sample_jobs_all value_of_def)
  from aggregator_broadcast[OF c t, of sample_storage]
  obtain ps where r: "run_select sample_storage
             (select_with_aggregator ''Job'' [''title'', ''maxSalary''] ?a) = Inr (map Flat ps)"
    and l: "length ps = length (get (sample_storage ''Job'') [])"
    and e: "\<forall>i < length ps.
              (\<forall>c \<in> set [''title'', ''maxSalary'']. c \<noteq> agg_name ?a \<longrightarrow>
                  (ps ! i) c = payload (get (sample_storage ''Job'') [] ! i) c) \<and>
              (ps ! i) (agg_name ?a) =
                 Some (agg_fn ?a (map (\<lambda>row. value_of (payload row) (snd (agg_col ?a)))
                                   (get (sample_storage ''Job'') [])))"
    by blast
  have l3: "length ps = 3"
    using l by (simp add: sample_jobs_all)
  have m: "\<forall>i < length ps. (ps ! i) ''MIN(maxSalary)'' = Some (IntV 500)"
    using e by (simp only: n v) blast
  have ti: "\<forall>i < length ps. (ps ! i) ''title'' = payload (get (sample_storage ''Job'') [] ! i) ''title''"
    using e by (simp add: n)
  have "map (\<lambda>p. p ''title'') ps =
           [Some (TextV ''Clerk''), Some (TextV ''Engineer''), Some (TextV ''Manager'')]"
  proof (rule nth_equalityI)
    show "length (map (\<lambda>p. p ''title'') ps) =
          length [Some (TextV ''Clerk''), Some (TextV ''Engineer''), Some (TextV ''Manager'')]"
      using l3 by simp
    fix i
    assume "i < length (map (\<lambda>p. p ''title'') ps)"
    then have i: "i < 3" using l3 by simp
    then have "i = 0 \<or> i = 1 \<or> i = 2" by auto
    then show "map (\<lambda>p. p ''title'') ps ! i =
          [Some (TextV ''Clerk''), Some (TextV ''Engineer''), Some (TextV ''Manager'')] ! i"
      using ti l3 by (auto simp: sample_jobs_all)
  qed
  with r l3 m c t show ?thesis by (intro exI[of _ ps] conjI)
qed

subsection \<open>The aggregators of the spec do not depend on the order of the rows\<close>


lemma sum_list_mset_cong:
  assumes "mset xs = mset ys"
  shows "sum_list (map f xs) = (sum_list (map f ys) :: int)"
proof -
  from assms have "image_mset f (mset xs) = image_mset f (mset ys)"
    by (rule arg_cong)
  then have "sum_mset (mset (map f xs)) = sum_mset (mset (map f ys))"
    by (simp only: mset_map)
  then show ?thesis
    by (simp only: sum_mset_sum_list)
qed

lemma length_filter_mset_cong:
  assumes "mset xs = mset ys"
  shows "length (filter P xs) = length (filter P ys)"
proof -
  from assms have "filter_mset P (mset xs) = filter_mset P (mset ys)"
    by (rule arg_cong)
  then have "size (mset (filter P xs)) = size (mset (filter P ys))"
    by (simp only: mset_filter)
  then show ?thesis
    by (simp only: size_mset)
qed

lemma agg_sum_insensitive: "order_insensitive (fn_sum c)"
  unfolding order_insensitive_def
proof (intro allI impI)
  fix xs ys :: "val list"
  assume "mset xs = mset ys"
  from sum_list_mset_cong[OF this] show "agg_fn (fn_sum c) xs = agg_fn (fn_sum c) ys"
    by (simp add: fn_sum_def)
qed

lemma agg_count_insensitive: "order_insensitive (fn_count c)"
  unfolding order_insensitive_def
proof (intro allI impI)
  fix xs ys :: "val list"
  assume "mset xs = mset ys"
  from length_filter_mset_cong[OF this] show "agg_fn (fn_count c) xs = agg_fn (fn_count c) ys"
    by (simp add: fn_count_def)
qed

lemma agg_min_Absent: "agg_min xs = Absent \<longleftrightarrow> (\<forall>x \<in> set xs. x = Absent)"
  by (induction xs) (auto simp: Let_def)

lemma agg_min_mem: "agg_min xs \<noteq> Absent \<Longrightarrow> agg_min xs \<in> set xs"
  by (induction xs) (auto simp: Let_def split: if_splits)

lemma agg_min_least: "x \<in> set xs \<Longrightarrow> x \<noteq> Absent \<Longrightarrow> val_le (agg_min xs) x"
proof (induction xs)
  case Nil
  then show ?case by simp
next
  case (Cons y ys)
  show ?case
  proof (cases "x \<in> set ys")
    case True
    with Cons have l: "val_le (agg_min ys) x" by simp
    from True Cons.prems(2) have "agg_min ys \<noteq> Absent"
      by (auto simp: agg_min_Absent)
    with l show ?thesis
      using val_le_trans[of y "agg_min ys" x] by (auto simp: Let_def)
  next
    case False
    with Cons.prems have "x = y" by simp
    then show ?thesis
      using Cons.prems(2) val_le_total[of x "agg_min ys"]
      by (auto simp: Let_def val_le_refl)
  qed
qed

lemma agg_min_set: "set xs = set ys \<Longrightarrow> agg_min xs = agg_min ys"
proof (cases "\<forall>x \<in> set xs. x = Absent")
  case True
  assume "set xs = set ys"
  with True show ?thesis
    using agg_min_Absent[of xs] agg_min_Absent[of ys] by simp
next
  case False
  assume e: "set xs = set ys"
  from False have a: "agg_min xs \<noteq> Absent" by (simp add: agg_min_Absent)
  from False e have b: "agg_min ys \<noteq> Absent" by (simp add: agg_min_Absent)
  from a e have "agg_min xs \<in> set ys" using agg_min_mem[of xs] by simp
  with a have 1: "val_le (agg_min ys) (agg_min xs)" by (simp add: agg_min_least)
  from b e have "agg_min ys \<in> set xs" using agg_min_mem[of ys] by simp
  with b have "val_le (agg_min xs) (agg_min ys)" by (simp add: agg_min_least)
  with 1 show ?thesis by (simp add: val_le_antisym)
qed

lemma agg_min_insensitive: "order_insensitive (fn_min c)"
  unfolding order_insensitive_def
proof (intro allI impI)
  fix xs ys :: "val list"
  assume "mset xs = mset ys"
  then have "set xs = set ys" by (rule mset_eq_setD)
  from agg_min_set[OF this] show "agg_fn (fn_min c) xs = agg_fn (fn_min c) ys"
    by (simp add: fn_min_def)
qed

lemma agg_max_Absent: "agg_max xs = Absent \<longleftrightarrow> (\<forall>x \<in> set xs. x = Absent)"
  by (induction xs) (auto simp: Let_def)

lemma agg_max_mem: "agg_max xs \<noteq> Absent \<Longrightarrow> agg_max xs \<in> set xs"
  by (induction xs) (auto simp: Let_def split: if_splits)

lemma agg_max_greatest: "x \<in> set xs \<Longrightarrow> x \<noteq> Absent \<Longrightarrow> val_le x (agg_max xs)"
proof (induction xs)
  case Nil
  then show ?case by simp
next
  case (Cons y ys)
  show ?case
  proof (cases "x \<in> set ys")
    case True
    with Cons have l: "val_le x (agg_max ys)" by simp
    from True Cons.prems(2) have "agg_max ys \<noteq> Absent"
      by (auto simp: agg_max_Absent)
    with l show ?thesis
      using val_le_trans[of x "agg_max ys" y] by (auto simp: Let_def)
  next
    case False
    with Cons.prems have "x = y" by simp
    then show ?thesis
      using Cons.prems(2) val_le_total[of x "agg_max ys"]
      by (auto simp: Let_def val_le_refl)
  qed
qed

lemma agg_max_set: "set xs = set ys \<Longrightarrow> agg_max xs = agg_max ys"
proof (cases "\<forall>x \<in> set xs. x = Absent")
  case True
  assume "set xs = set ys"
  with True show ?thesis
    using agg_max_Absent[of xs] agg_max_Absent[of ys] by simp
next
  case False
  assume e: "set xs = set ys"
  from False have a: "agg_max xs \<noteq> Absent" by (simp add: agg_max_Absent)
  from False e have b: "agg_max ys \<noteq> Absent" by (simp add: agg_max_Absent)
  from a e have "agg_max xs \<in> set ys" using agg_max_mem[of xs] by simp
  with a have 1: "val_le (agg_max xs) (agg_max ys)" by (simp add: agg_max_greatest)
  from b e have "agg_max ys \<in> set xs" using agg_max_mem[of ys] by simp
  with b have "val_le (agg_max ys) (agg_max xs)" by (simp add: agg_max_greatest)
  with 1 show ?thesis by (simp add: val_le_antisym)
qed

lemma agg_max_insensitive: "order_insensitive (fn_max c)"
  unfolding order_insensitive_def
proof (intro allI impI)
  fix xs ys :: "val list"
  assume "mset xs = mset ys"
  then have "set xs = set ys" by (rule mset_eq_setD)
  from agg_max_set[OF this] show "agg_fn (fn_max c) xs = agg_fn (fn_max c) ys"
    by (simp add: fn_max_def)
qed


subsection \<open>Implicit joins\<close>















end
